theory Spec2Isabelle
  imports Complex_Main "HOL-Library.Word"
begin

unbundle bit_operations_syntax

section \<open>Python values and errors\<close>

text \<open>
  The integration is Python. Its integers are unbounded (\<open>int\<close>); the words a Modbus
  response carries are 16-bit (\<open>16 word\<close>, read as a Python integer with \<open>uint\<close>).
  Strings hold code points below 256 only (they are built with \<open>chr\<close> of a byte),
  one \<open>char\<close> per code point.
\<close>

datatype error = IndexError | TypeError | OverflowError

text \<open>
  A Python float is an IEEE 754 binary64 value: a finite value, given by the rational
  number it denotes (\<open>Finite 0\<close> is \<open>0.0\<close>), the negative zero, an infinity or a NaN.
  The float written \<open>0.1\<close> is the double nearest to one tenth,
  \<open>3602879701896397 / 2 ^ 55\<close>.
\<close>

datatype pyfloat = Finite rat | NegZero | PosInf | NegInf | NaN

datatype pynum = PyInt int | PyFloat pyfloat

datatype pyval = PNone | PInt int | PFloat pyfloat | PStr string

text \<open>
  Rounding a positive rational to binary64, to nearest and ties to even: 53 bits of
  precision, the exponent of the last bit never below \<open>-1074\<close> (the subnormal
  range). A result of \<open>2 ^ 1024\<close> or more is past the largest double.
\<close>

function bit_length :: "int \<Rightarrow> nat" where
  "bit_length n = (if n \<le> 0 then 0 else Suc (bit_length (n div 2)))"
  by pat_completeness auto
termination
  by (relation "measure nat") auto

definition pow2 :: "int \<Rightarrow> rat" where
  "pow2 e = (if 0 \<le> e then 2 ^ nat e else 1 / 2 ^ nat (- e))"

definition ilog2 :: "rat \<Rightarrow> int" where
  "ilog2 r =
     (let e = int (bit_length (fst (quotient_of r))) - int (bit_length (snd (quotient_of r)))
      in if pow2 e \<le> r then e else e - 1)"

definition round_half_even :: "rat \<Rightarrow> int" where
  "round_half_even x =
     (let f = \<lfloor>x\<rfloor>; d = x - of_int f
      in if d < 1 / 2 then f else if d > 1 / 2 then f + 1
         else if even f then f else f + 1)"

definition round_double :: "rat \<Rightarrow> rat" where
  "round_double r =
     (let q = max (ilog2 r - 52) (- 1074)
      in of_int (round_half_even (r / pow2 q)) * pow2 q)"

definition float_round :: "rat \<Rightarrow> pyfloat" where
  "float_round r =
     (let m = round_double \<bar>r\<bar>
      in if m \<ge> 2 ^ 1024 then (if r < 0 then NegInf else PosInf)
         else if m = 0 then (if r < 0 then NegZero else Finite 0)
         else Finite (if r < 0 then - m else m))"

fun float_neg :: "pyfloat \<Rightarrow> bool" where
  "float_neg (Finite r) = (r < 0)"
| "float_neg NegZero = True"
| "float_neg NegInf = True"
| "float_neg _ = False"

fun float_val :: "pyfloat \<Rightarrow> rat" where
  "float_val (Finite r) = r"
| "float_val _ = 0"

definition float_mul :: "pyfloat \<Rightarrow> pyfloat \<Rightarrow> pyfloat" where
  "float_mul a b =
     (if a = NaN \<or> b = NaN then NaN
      else if a = PosInf \<or> a = NegInf \<or> b = PosInf \<or> b = NegInf then
        (if a = Finite 0 \<or> a = NegZero \<or> b = Finite 0 \<or> b = NegZero then NaN
         else if float_neg a \<noteq> float_neg b then NegInf else PosInf)
      else if float_val a * float_val b = 0 then
        (if float_neg a \<noteq> float_neg b then NegZero else Finite 0)
      else float_round (float_val a * float_val b))"

text \<open>An integer as a float, as arithmetic with a float converts it.\<close>

definition float_of_int :: "int \<Rightarrow> error + pyfloat" where
  "float_of_int v =
     (if v = 0 then Inr (Finite 0)
      else if round_double \<bar>of_int v\<bar> \<ge> 2 ^ 1024 then Inl OverflowError
      else Inr (Finite (if v < 0 then - round_double \<bar>of_int v\<bar>
                        else round_double \<bar>of_int v\<bar>)))"

text \<open>Python's \<open>scale != 1.0\<close>.\<close>

fun ne_one :: "pynum \<Rightarrow> bool" where
  "ne_one (PyInt k) = (k \<noteq> 1)"
| "ne_one (PyFloat f) = (f \<noteq> Finite 1)"

text \<open>Python's \<open>value * scale\<close> for the values a snapshot can hold.\<close>

fun py_mul :: "pyval \<Rightarrow> pynum \<Rightarrow> error + pyval" where
  "py_mul (PInt v) (PyInt k) = Inr (PInt (v * k))"
| "py_mul (PInt v) (PyFloat f) =
     (case float_of_int v of Inl e \<Rightarrow> Inl e | Inr x \<Rightarrow> Inr (PFloat (float_mul x f)))"
| "py_mul (PFloat x) (PyInt k) =
     (case float_of_int k of Inl e \<Rightarrow> Inl e | Inr y \<Rightarrow> Inr (PFloat (float_mul x y)))"
| "py_mul (PFloat x) (PyFloat f) = Inr (PFloat (float_mul x f))"
| "py_mul (PStr s) (PyInt k) = Inr (PStr (concat (replicate (nat k) s)))"
| "py_mul (PStr s) (PyFloat f) = Inl TypeError"
| "py_mul PNone s = Inl TypeError"

text \<open>Python's \<open>xs[i]\<close>: a negative index counts from the end, out of range raises.\<close>

definition getitem :: "'a list \<Rightarrow> int \<Rightarrow> error + 'a" where
  "getitem xs i =
     (if 0 \<le> i \<and> i < int (length xs) then Inr (xs ! nat i)
      else if i < 0 \<and> 0 \<le> int (length xs) + i then Inr (xs ! nat (int (length xs) + i))
      else Inl IndexError)"

text \<open>\<open>chr\<close> on a byte, \<open>str.replace('\x00', '')\<close> and \<open>str.strip()\<close>.\<close>

definition chr :: "int \<Rightarrow> char" where
  "chr n = char_of n"

definition isspace :: "char \<Rightarrow> bool" where
  "isspace c = ((of_char c :: nat) \<in> {9, 10, 11, 12, 13, 28, 29, 30, 31, 32, 133, 160})"

definition replace_nul :: "string \<Rightarrow> string" where
  "replace_nul s = filter (\<lambda>c. c \<noteq> CHR 0x00) s"

definition strip :: "string \<Rightarrow> string" where
  "strip s = rev (dropWhile isspace (rev (dropWhile isspace s)))"

section \<open>model_registry.py\<close>

record Register =
  address :: int
  name :: string
  data_type :: string
  count :: int
  scale :: pynum
  unit :: "string option"
  device_class :: "string option"
  state_class :: "string option"
  register_type :: string

text \<open>The dataclass constructor with its defaults for every field after \<open>data_type\<close>.\<close>

definition Reg :: "int \<Rightarrow> string \<Rightarrow> string \<Rightarrow> Register" where
  "Reg a n t = \<lparr>address = a, name = n, data_type = t, count = 1,
     scale = PyFloat (Finite 1),
     unit = None, device_class = None, state_class = None, register_type = ''input''\<rparr>"

text \<open>The float \<open>0.1\<close> of the registry's scales.\<close>

definition tenth :: pyfloat where
  "tenth = Finite (3602879701896397 / 36028797018963968)"

definition create_base_registers :: "Register list" where
  "create_base_registers =
    [ (Reg 4989 ''Serial Number'' ''string'')\<lparr>count := 10\<rparr>,
      Reg 4999 ''Device Type Code'' ''uint16'',
      (Reg 5007 ''Inverter Temperature'' ''int16'')
        \<lparr>scale := PyFloat tenth, unit := Some [CHR 0xB0, CHR ''C''],
         device_class := Some ''temperature''\<rparr> ]"

definition volt :: "int \<Rightarrow> string \<Rightarrow> Register" where
  "volt a n = (Reg a n ''uint16'')
     \<lparr>scale := PyFloat tenth, unit := Some ''V'', device_class := Some ''voltage''\<rparr>"

definition amp :: "int \<Rightarrow> string \<Rightarrow> Register" where
  "amp a n = (Reg a n ''uint16'')
     \<lparr>scale := PyFloat tenth, unit := Some ''A'', device_class := Some ''current''\<rparr>"

definition create_sh10rt :: "Register list" where
  "create_sh10rt = create_base_registers @
    [ volt 5010 ''MPPT1 Voltage'', amp 5011 ''MPPT1 Current'',
      volt 5012 ''MPPT2 Voltage'', amp 5013 ''MPPT2 Current'' ]"

definition create_sh25t :: "Register list" where
  "create_sh25t = create_base_registers @
    [ volt 5010 ''MPPT1 Voltage'', amp 5011 ''MPPT1 Current'',
      volt 5012 ''MPPT2 Voltage'', amp 5013 ''MPPT2 Current'',
      volt 5014 ''MPPT3 Voltage'', amp 5015 ''MPPT3 Current'',
      (Reg 5016 ''Total DC Power'' ''uint32'')
        \<lparr>scale := PyInt 1, unit := Some ''W'', device_class := Some ''power''\<rparr> ]"

definition get_model :: "int \<Rightarrow> Register list option" where
  "get_model model_code =
     (if model_code = 0x0E03 then Some create_sh10rt
      else if model_code = 0x0E26 then Some create_sh25t
      else None)"

section \<open>sensor.py: the Modbus client\<close>

text \<open>
  The client is the external transport. A request is one of its two read calls
  (start address, count, slave); a response is an error (\<open>isError()\<close>) or the list
  \<open>registers\<close>. The client may answer by the history of requests, which is also the
  record of the reads issued so far.
\<close>

datatype request = ReadInput int int int | ReadHolding int int int

datatype response = ModbusError | ModbusOk "16 word list"

type_synonym client = "request list \<Rightarrow> request \<Rightarrow> response"

datatype key = Name string | Addr int

type_synonym data = "key \<rightharpoonup> pyval"

section \<open>sensor.py: decoding a group\<close>

text \<open>The inner loop \<open>for i in range(reg.count)\<close> of the string branch.\<close>

fun read_chars :: "16 word list \<Rightarrow> int \<Rightarrow> nat list \<Rightarrow> string \<Rightarrow> error + string" where
  "read_chars regs offset [] chars = Inr chars"
| "read_chars regs offset (i # rest) chars =
     (case getitem regs (offset + int i) of
        Inl e \<Rightarrow> Inl e
      | Inr word \<Rightarrow>
          read_chars regs offset rest
            (chars @ [chr (drop_bit 8 (uint word) AND 0xFF), chr (uint word AND 0xFF)]))"

text \<open>The body of \<open>for reg in registers\<close>: the decoded value and the new offset.\<close>

definition decode_register :: "16 word list \<Rightarrow> int \<Rightarrow> Register \<Rightarrow> error + (pyval \<times> int)" where
  "decode_register regs offset reg =
     (if data_type reg = ''string'' then
        (case read_chars regs offset [0..<nat (count reg)] [] of
           Inl e \<Rightarrow> Inl e
         | Inr chars \<Rightarrow> Inr (PStr (strip (replace_nul chars)), offset + count reg))
      else if data_type reg = ''uint16'' then
        (case getitem regs offset of
           Inl e \<Rightarrow> Inl e
         | Inr w \<Rightarrow> Inr (PInt (uint w), offset + 1))
      else if data_type reg = ''int16'' then
        (case getitem regs offset of
           Inl e \<Rightarrow> Inl e
         | Inr w \<Rightarrow>
             Inr (PInt (if uint w > 0x7FFF then uint w - 0x10000 else uint w), offset + 1))
      else if data_type reg = ''uint32'' then
        (case getitem regs offset of
           Inl e \<Rightarrow> Inl e
         | Inr hi \<Rightarrow>
            (case getitem regs (offset + 1) of
               Inl e \<Rightarrow> Inl e
             | Inr lo \<Rightarrow> Inr (PInt (push_bit 16 (uint hi) OR uint lo), offset + 2)))
      else if data_type reg = ''int32'' then
        (case getitem regs offset of
           Inl e \<Rightarrow> Inl e
         | Inr hi \<Rightarrow>
            (case getitem regs (offset + 1) of
               Inl e \<Rightarrow> Inl e
             | Inr lo \<Rightarrow>
                 (let v = push_bit 16 (uint hi) OR uint lo
                  in Inr (PInt (if v > 0x7FFFFFFF then v - 0x100000000 else v), offset + 2))))
      else Inr (PNone, offset + count reg))"

fun decode_loop :: "16 word list \<Rightarrow> Register list \<Rightarrow> int \<Rightarrow> data \<Rightarrow> error + data" where
  "decode_loop regs [] offset d = Inr d"
| "decode_loop regs (reg # rest) offset d =
     (case decode_register regs offset reg of
        Inl e \<Rightarrow> Inl e
      | Inr (v, offset') \<Rightarrow> decode_loop regs rest offset' (d(Addr (address reg) \<mapsto> v)))"

text \<open>
  \<open>_read_register_group\<close>: one wire read for the group, in the register space of its
  first register, then the decoding. \<open>Inr d\<close> is a normal return (of \<open>None\<close>) that
  leaves the dictionary as \<open>d\<close>; the second component is the reads issued so far.
\<close>

definition read_register_group ::
  "client \<Rightarrow> int \<Rightarrow> Register list \<Rightarrow> data \<times> request list \<Rightarrow> (error + data) \<times> request list" where
  "read_register_group client slave registers st =
     (case registers of
        [] \<Rightarrow> (Inl IndexError, snd st)
      | r0 # _ \<Rightarrow>
         (let start_address = address r0;
              cnt = sum_list (map count registers);
              req = (if register_type r0 = ''input''
                     then ReadInput start_address cnt slave
                     else ReadHolding start_address cnt slave);
              result = client (snd st) req;
              tr = snd st @ [req]
          in case result of
               ModbusError \<Rightarrow> (Inr (fst st), tr)
             | ModbusOk regs \<Rightarrow> (decode_loop regs registers 0 (fst st), tr)))"

section \<open>sensor.py: the poll cycle\<close>

text \<open>
  \<open>await self._read_register_group(current_group, data)\<close>: the call runs first, with
  its read and its decoding. \<open>_read_register_group\<close> is a plain \<open>def\<close>, so what it
  returns is \<open>None\<close>, which is not awaitable: \<open>await\<close> raises \<open>TypeError\<close>.
\<close>

definition await_read_register_group ::
  "client \<Rightarrow> int \<Rightarrow> Register list \<Rightarrow> data \<times> request list \<Rightarrow> (error + data) \<times> request list" where
  "await_read_register_group client slave registers st =
     (case read_register_group client slave registers st of
        (Inl e, tr) \<Rightarrow> (Inl e, tr)
      | (Inr d, tr) \<Rightarrow> (Inl TypeError, tr))"

text \<open>
  The loop \<open>for reg in registers\<close> with its \<open>current_group\<close>, and the read of the
  remaining group after it.
\<close>

fun group_loop ::
  "client \<Rightarrow> int \<Rightarrow> Register list \<Rightarrow> Register list \<Rightarrow> data \<times> request list
     \<Rightarrow> (error + data) \<times> request list" where
  "group_loop client slave [] current_group st =
     (if current_group \<noteq> [] then await_read_register_group client slave current_group st
      else (Inr (fst st), snd st))"
| "group_loop client slave (reg # rest) current_group st =
     (if current_group = [] then group_loop client slave rest [reg] st
      else if address reg = address (last current_group) + count (last current_group)
      then group_loop client slave rest (current_group @ [reg]) st
      else (case await_read_register_group client slave current_group st of
              (Inl e, tr) \<Rightarrow> (Inl e, tr)
            | (Inr d, tr) \<Rightarrow> group_loop client slave rest [reg] (d, tr)))"

text \<open>Lines 92 to 113 of \<open>_async_update_data\<close>, for a register list.\<close>

definition batch_read ::
  "client \<Rightarrow> int \<Rightarrow> Register list \<Rightarrow> data \<times> request list \<Rightarrow> (error + data) \<times> request list" where
  "batch_read client slave registers st =
     group_loop client slave (sort_key address registers) [] st"

text \<open>
  \<open>_async_update_data\<close>: the returned dictionary, or the exception raised, and the
  reads issued during the cycle.
\<close>

definition async_update_data :: "client \<Rightarrow> int \<Rightarrow> (error + data) \<times> request list" where
  "async_update_data client slave =
     (let req = ReadHolding 4999 1 slave;
          device_type_result = client [] req;
          tr = [req]
      in case device_type_result of
           ModbusError \<Rightarrow> (Inr Map.empty, tr)
         | ModbusOk regs \<Rightarrow>
            (case getitem regs 0 of
               Inl e \<Rightarrow> (Inl e, tr)
             | Inr w \<Rightarrow>
                (let model_code = uint w;
                     d = Map.empty(Name ''device_type_code'' \<mapsto> PInt model_code)
                 in case get_model model_code of
                      None \<Rightarrow> (Inr Map.empty, tr)
                    | Some registers \<Rightarrow>
                        if registers = [] then (Inr Map.empty, tr)
                        else batch_read client slave registers (d, tr))))"

text \<open>\<open>SungrowModbusSensor.state\<close> over the coordinator's data.\<close>

definition state :: "data \<Rightarrow> Register \<Rightarrow> error + pyval" where
  "state d reg =
     (let v = (case d (Addr (address reg)) of None \<Rightarrow> PNone | Some x \<Rightarrow> x)
      in if v \<noteq> PNone \<and> ne_one (scale reg) then py_mul v (scale reg) else Inr v)"

section \<open>Blocks and runs\<close>

text \<open>A run without gap or overlap: each register starts where the one before ends.\<close>

fun contiguous :: "Register list \<Rightarrow> bool" where
  "contiguous (a # b # rest) = (address b = address a + count a \<and> contiguous (b # rest))"
| "contiguous _ = True"

text \<open>
  The longest run a list starts with. Only \<open>address\<close> and \<open>count\<close> are looked at.
\<close>

fun first_run :: "Register list \<Rightarrow> Register list" where
  "first_run (a # b # rest) =
     (if address b = address a + count a then a # first_run (b # rest) else [a])"
| "first_run regs = regs"

text \<open>
  The wire request \<open>_read_register_group\<close> builds for a block: the read call named by
  the register space of the first register, at the address of the first register, for
  the sum of the word counts.
\<close>

definition block_request :: "int \<Rightarrow> Register list \<Rightarrow> request" where
  "block_request slave registers =
     (if register_type (hd registers) = ''input''
      then ReadInput (address (hd registers)) (sum_list (map count registers)) slave
      else ReadHolding (address (hd registers)) (sum_list (map count registers)) slave)"

text \<open>
  Two registers of one register space claim the same address range: they have the same
  address, or the words \<open>address \<dots> address + count - 1\<close> of one meet those of the
  other. A list is malformed when some two of its registers do.
\<close>

definition claims_overlap :: "Register \<Rightarrow> Register \<Rightarrow> bool" where
  "claims_overlap a b =
     (register_type a = register_type b
      \<and> (address a = address b
           \<or> (address a < address b + count b \<and> address b < address a + count a)))"

fun overlapping :: "Register list \<Rightarrow> bool" where
  "overlapping [] = False"
| "overlapping (a # rest) = ((\<exists>b\<in>set rest. claims_overlap a b) \<or> overlapping rest)"

text \<open>What the decoder adds to its offset for a register.\<close>

definition step :: "Register \<Rightarrow> int" where
  "step reg =
     (if data_type reg = ''string'' then count reg
      else if data_type reg = ''uint16'' \<or> data_type reg = ''int16'' then 1
      else if data_type reg = ''uint32'' \<or> data_type reg = ''int32'' then 2
      else count reg)"

definition numeric :: "string \<Rightarrow> bool" where
  "numeric t = (t = ''uint16'' \<or> t = ''int16'' \<or> t = ''uint32'' \<or> t = ''int32'')"

text \<open>
  The code points below 256 that \<open>str.strip()\<close> removes: tab to carriage return, the
  four separators from 28, the space, the next-line control and the no-break space.
\<close>

definition whitespace :: "char \<Rightarrow> bool" where
  "whitespace c =
     ((9 \<le> (of_char c :: nat) \<and> (of_char c :: nat) \<le> 13)
      \<or> (28 \<le> (of_char c :: nat) \<and> (of_char c :: nat) \<le> 32)
      \<or> (of_char c :: nat) = 133 \<or> (of_char c :: nat) = 160)"

section \<open>The runs of a register list\<close>

text \<open>
  The loop of \<open>_async_update_data\<close> with the reads taken out: the groups it would close
  if every awaited call came back to it. This is not what the code runs, which stops
  at the first group it closes (\<open>batch_read_first_run\<close>); \<open>plan\<close> serves to count and
  to name the runs of a register list in address order.
\<close>

fun group_scan :: "Register list \<Rightarrow> Register list \<Rightarrow> Register list list" where
  "group_scan [] current_group = (if current_group \<noteq> [] then [current_group] else [])"
| "group_scan (reg # rest) current_group =
     (if current_group = [] then group_scan rest [reg]
      else if address reg = address (last current_group) + count (last current_group)
      then group_scan rest (current_group @ [reg])
      else current_group # group_scan rest [reg])"

definition plan :: "Register list \<Rightarrow> Register list list" where
  "plan registers = group_scan (sort_key address registers) []"

text \<open>The places in a list where the next register does not start where the last ends.\<close>

fun gaps :: "Register list \<Rightarrow> nat" where
  "gaps (a # b # rest) = (if address b = address a + count a then 0 else 1) + gaps (b # rest)"
| "gaps _ = 0"

section \<open>The specification's reference definitions\<close>

text \<open>The width invariant of the data model.\<close>

definition width_invariant :: "Register \<Rightarrow> bool" where
  "width_invariant reg =
     (if data_type reg = ''uint32'' \<or> data_type reg = ''int32'' then count reg = 2
      else if data_type reg = ''uint16'' \<or> data_type reg = ''int16'' then count reg = 1
      else count reg \<ge> 1)"

text \<open>The decoder's numeric rules, on the words at and after an offset.\<close>

definition spec_width :: "string \<Rightarrow> nat" where
  "spec_width t = (if t = ''uint32'' \<or> t = ''int32'' then 2 else 1)"

definition spec_numeric :: "string \<Rightarrow> 16 word list \<Rightarrow> nat \<Rightarrow> int" where
  "spec_numeric t ws off =
     (if t = ''uint16'' then uint (ws ! off)
      else if t = ''int16'' then
        (if uint (ws ! off) > 0x7FFF then uint (ws ! off) - 0x10000 else uint (ws ! off))
      else if t = ''uint32'' then push_bit 16 (uint (ws ! off)) OR uint (ws ! (off + 1))
      else (let v = push_bit 16 (uint (ws ! off)) OR uint (ws ! (off + 1))
            in if v > 0x7FFFFFFF then v - 0x100000000 else v))"

text \<open>The string rule: high byte then low byte of each word, NULs removed, stripped.\<close>

definition word_chars :: "16 word \<Rightarrow> string" where
  "word_chars w = [chr (drop_bit 8 (uint w)), chr (uint w AND 0xFF)]"

definition spec_string :: "16 word list \<Rightarrow> string" where
  "spec_string ws = strip (replace_nul (concat (map word_chars ws)))"

text \<open>The scaled value the specification places in the output mapping.\<close>

definition spec_scaled :: "pyval \<Rightarrow> pynum \<Rightarrow> error + pyval" where
  "spec_scaled v s = (case v of PStr x \<Rightarrow> Inr (PStr x) | _ \<Rightarrow> py_mul v s)"

section \<open>Devices used in the examples\<close>

text \<open>
  A device that reports the identity code \<open>code\<close>, refuses every block read that
  starts at an address in \<open>bad\<close>, and answers every other read with as many zero
  words as were asked for.
\<close>

definition device :: "16 word \<Rightarrow> int list \<Rightarrow> client" where
  "device code bad tr req =
     (case req of
        ReadHolding a n s \<Rightarrow>
          if a = 4999 \<and> n = 1 then ModbusOk [code]
          else if a \<in> set bad then ModbusError
          else ModbusOk (replicate (nat n) 0)
      | ReadInput a n s \<Rightarrow>
          if a \<in> set bad then ModbusError else ModbusOk (replicate (nat n) 0))"

section \<open>Indexing and the string loop\<close>

lemma getitem_in_range: "0 \<le> i \<Longrightarrow> i < int (length xs) \<Longrightarrow> getitem xs i = Inr (xs ! nat i)"
  by (simp add: getitem_def)

lemma high_byte_mask: "drop_bit 8 (uint (w :: 16 word)) AND 0xFF = drop_bit 8 (uint w)"
proof -
  have "uint w < 2 ^ 16" using uint_bounded [of w] by simp
  then have "drop_bit 8 (uint w) < 2 ^ 8"
    by (simp add: drop_bit_eq_div)
  moreover have "0 \<le> drop_bit 8 (uint w)" by simp
  ultimately have "take_bit 8 (drop_bit 8 (uint w)) = drop_bit 8 (uint w)"
    by (simp add: take_bit_int_eq_self)
  then show ?thesis
    by (simp add: take_bit_eq_mask mask_eq_exp_minus_1)
qed

lemma read_chars_in_range:
  "0 \<le> offset \<Longrightarrow> \<forall>i\<in>set idx. nat offset + i < length regs \<Longrightarrow>
   read_chars regs offset idx chars =
     Inr (chars @ concat (map (\<lambda>i. word_chars (regs ! (nat offset + i))) idx))"
proof (induction idx arbitrary: chars)
  case Nil
  then show ?case by simp
next
  case (Cons i rest)
  have "getitem regs (offset + int i) = Inr (regs ! (nat offset + i))"
  proof -
    have a: "0 \<le> offset + int i" "offset + int i < int (length regs)"
      "nat (offset + int i) = nat offset + i"
      using Cons.prems by auto
    show ?thesis using getitem_in_range [OF a(1) a(2)] a(3) by simp
  qed
  with Cons show ?case
    by (simp add: word_chars_def high_byte_mask)
qed

lemma nth_upt_take_drop:
  "off + n \<le> length xs \<Longrightarrow>
   map (\<lambda>i. f (xs ! (off + i))) [0..<n] = map f (take n (drop off xs))"
  by (rule nth_equalityI) auto

lemma decode_register_string:
  assumes "data_type reg = ''string''" and "0 \<le> offset" and "0 \<le> count reg"
    and "offset + count reg \<le> int (length regs)"
  shows "decode_register regs offset reg =
           Inr (PStr (spec_string (take (nat (count reg)) (drop (nat offset) regs))),
                offset + count reg)"
proof -
  let ?n = "nat (count reg)"
  have le: "nat offset + ?n \<le> length regs"
    using assms by linarith
  then have "\<forall>i\<in>set [0..<?n]. nat offset + i < length regs"
    by auto
  then have "read_chars regs offset [0..<?n] [] =
      Inr (concat (map (\<lambda>i. word_chars (regs ! (nat offset + i))) [0..<?n]))"
    using read_chars_in_range [OF assms(2), of "[0..<?n]" regs "[]"] by simp
  moreover have "map (\<lambda>i. word_chars (regs ! (nat offset + i))) [0..<?n] =
      map word_chars (take ?n (drop (nat offset) regs))"
    using nth_upt_take_drop [OF le] .
  ultimately show ?thesis
    using assms(1) by (simp add: decode_register_def spec_string_def)
qed

lemma isspace_whitespace: "isspace c = whitespace c"
proof -
  have "(n \<in> {9, 10, 11, 12, 13, 28, 29, 30, 31, 32, 133, 160}) =
        ((9 \<le> n \<and> n \<le> 13) \<or> (28 \<le> n \<and> n \<le> 32) \<or> n = 133 \<or> n = 160)" for n :: nat
    by auto
  then show ?thesis by (simp add: isspace_def whitespace_def)
qed

lemma word_chars_div_mod:
  "word_chars w = [char_of (uint w div 256), char_of (uint w mod 256)]"
proof -
  have "uint w AND 0xFF = uint w mod 256"
    using take_bit_eq_mask [of 8 "uint w"] by (simp add: take_bit_eq_mod mask_eq_exp_minus_1)
  then show ?thesis
    by (simp add: word_chars_def chr_def drop_bit_eq_div)
qed

lemma strip_parts:
  "\<exists>pre suf. x = pre @ strip x @ suf \<and> list_all isspace pre \<and> list_all isspace suf
     \<and> (strip x = [] \<or> (\<not> isspace (hd (strip x)) \<and> \<not> isspace (last (strip x))))"
proof -
  let ?y = "dropWhile isspace x"
  let ?pre = "takeWhile isspace x"
  let ?suf = "rev (takeWhile isspace (rev ?y))"
  have s: "strip x = rev (dropWhile isspace (rev ?y))" by (simp add: strip_def)
  have "rev (takeWhile isspace (rev ?y) @ dropWhile isspace (rev ?y)) = ?y"
    by (simp only: takeWhile_dropWhile_id rev_rev_ident)
  then have "rev (dropWhile isspace (rev ?y)) @ ?suf = ?y"
    by (simp only: rev_append)
  then have y: "?y = strip x @ ?suf" by (simp only: s)
  have x: "x = ?pre @ strip x @ ?suf"
    using takeWhile_dropWhile_id [of isspace x] y by metis
  have p: "list_all isspace ?pre" "list_all isspace ?suf"
    by (auto simp: list_all_iff dest: set_takeWhileD)
  have e: "\<not> isspace (hd (strip x)) \<and> \<not> isspace (last (strip x))" if ne: "strip x \<noteq> []"
  proof
    have "?y \<noteq> []" using y ne by (metis append_is_Nil_conv)
    then have "\<not> isspace (hd ?y)" by (rule hd_dropWhile)
    moreover have "hd ?y = hd (strip x)" using y ne by (metis hd_append2)
    ultimately show "\<not> isspace (hd (strip x))" by simp
    have d: "dropWhile isspace (rev ?y) \<noteq> []" using ne s by (metis rev_is_Nil_conv)
    then have "\<not> isspace (hd (dropWhile isspace (rev ?y)))" by (rule hd_dropWhile)
    moreover have "last (strip x) = hd (dropWhile isspace (rev ?y))"
      using d by (simp add: s last_rev)
    ultimately show "\<not> isspace (last (strip x))" by simp
  qed
  from x p e show ?thesis by blast
qed

text \<open>
  Claim C7. A string register of \<open>count\<close> n whose n words lie inside the buffer
  decodes to a string \<open>s\<close> and advances the offset by n, where \<open>s\<close> is fixed by the
  words alone: take for each word, in word order, the character of its high byte
  (the word divided by 256) and then the character of its low byte (the word modulo
  256), and drop every NUL character; what is left is \<open>s\<close> with only whitespace before
  it and only whitespace after it, and \<open>s\<close> neither starts nor ends with whitespace.
  With offset 0 and a buffer of exactly n words these are all the words of the buffer.
\<close>

theorem decode_string:
  assumes "data_type reg = ''string''" and "0 \<le> offset" and "0 \<le> count reg"
    and "offset + count reg \<le> int (length regs)"
  shows "\<exists>s pre suf.
           decode_register regs offset reg = Inr (PStr s, offset + count reg)
           \<and> filter (\<lambda>c. c \<noteq> CHR 0x00)
                (concat (map (\<lambda>w. [char_of (uint w div 256), char_of (uint w mod 256)])
                   (take (nat (count reg)) (drop (nat offset) regs))))
               = pre @ s @ suf
           \<and> list_all whitespace pre \<and> list_all whitespace suf
           \<and> (s = [] \<or> (\<not> whitespace (hd s) \<and> \<not> whitespace (last s)))"
proof -
  let ?ws = "take (nat (count reg)) (drop (nat offset) regs)"
  let ?x = "filter (\<lambda>c. c \<noteq> CHR 0x00)
      (concat (map (\<lambda>w. [char_of (uint w div 256), char_of (uint w mod 256)]) ?ws))"
  have "word_chars = (\<lambda>w. [char_of (uint w div 256), char_of (uint w mod 256)])"
    by (rule ext) (rule word_chars_div_mod)
  then have sp: "spec_string ?ws = strip ?x"
    by (simp only: spec_string_def replace_nul_def)
  have d: "decode_register regs offset reg = Inr (PStr (strip ?x), offset + count reg)"
    using decode_register_string [OF assms] by (simp only: sp)
  from strip_parts [of ?x] d show ?thesis
    unfolding isspace_whitespace [abs_def] by blast
qed

lemma decode_string_examples:
  "decode_register [0x4142, 0x0000] 0 ((Reg 100 ''Label'' ''string'')\<lparr>count := 2\<rparr>)
     = Inr (PStr ''AB'', 2)"
  "decode_register [0x2041, 0x4220] 0 ((Reg 100 ''Label'' ''string'')\<lparr>count := 2\<rparr>)
     = Inr (PStr ''AB'', 2)"
  "decode_register [0x0A00, 0x4100, 0x2042, 0x0085] 0
     ((Reg 100 ''Label'' ''string'')\<lparr>count := 4\<rparr>) = Inr (PStr ''A B'', 4)"
  by code_simp+

theorem decode_string_witness:
  "decode_register [0x4142, 0x0000] 0 ((Reg 100 ''Label'' ''string'')\<lparr>count := 2\<rparr>)
     = Inr (PStr ''AB'', 2)
   \<and> decode_register [0x2041, 0x4220] 0 ((Reg 100 ''Label'' ''string'')\<lparr>count := 2\<rparr>)
     = Inr (PStr ''AB'', 2)
   \<and> decode_register [0x0A00, 0x4100, 0x2042, 0x0085] 0
       ((Reg 100 ''Label'' ''string'')\<lparr>count := 4\<rparr>) = Inr (PStr ''A B'', 4)"
proof -
  let ?r = "(Reg 100 ''Label'' ''string'')\<lparr>count := 2\<rparr>"
  have h: "data_type ?r = ''string''" "(0::int) \<le> 0" "0 \<le> count ?r"
    "0 + count ?r \<le> int (length [0x2041, 0x4220 :: 16 word])"
    by (simp_all add: Reg_def)
  from decode_string [OF h] decode_string_examples show ?thesis
    by simp
qed

section \<open>The numeric rules\<close>

lemma decode_register_numeric:
  assumes "data_type reg = t"
    and "t = ''uint16'' \<or> t = ''int16'' \<or> t = ''uint32'' \<or> t = ''int32''"
    and "0 \<le> offset" and "offset + int (spec_width t) \<le> int (length regs)"
  shows "decode_register regs offset reg =
           Inr (PInt (spec_numeric t regs (nat offset)), offset + int (spec_width t))"
proof -
  have g0: "getitem regs offset = Inr (regs ! nat offset)"
    using assms by (intro getitem_in_range) (auto simp: spec_width_def split: if_splits)
  have g1: "getitem regs (offset + 1) = Inr (regs ! (nat offset + 1))"
    if "t = ''uint32'' \<or> t = ''int32''"
  proof -
    have "0 \<le> offset + 1" "offset + 1 < int (length regs)" "nat (offset + 1) = nat offset + 1"
      using that assms by (auto simp: spec_width_def)
    then show ?thesis using getitem_in_range [of "offset + 1" regs] by simp
  qed
  from assms(2) show ?thesis
  proof (elim disjE)
    assume "t = ''uint16''"
    then show ?thesis using assms(1) g0
      by (simp add: decode_register_def spec_numeric_def spec_width_def)
  next
    assume "t = ''int16''"
    then show ?thesis using assms(1) g0
      by (simp add: decode_register_def spec_numeric_def spec_width_def)
  next
    assume "t = ''uint32''"
    then show ?thesis using assms(1) g0 g1
      by (simp add: decode_register_def spec_numeric_def spec_width_def)
  next
    assume "t = ''int32''"
    then show ?thesis using assms(1) g0 g1
      by (simp add: decode_register_def spec_numeric_def spec_width_def Let_def)
  qed
qed

text \<open>
  Claim C6. At an offset whose words lie inside the buffer, a register of type
  uint16, int16, uint32 or int32 decodes by the reference rules: the word itself;
  the word less 0x10000 when it exceeds 0x7FFF; the first word shifted left by 16
  bits or-ed with the second (high word first); the same less 0x100000000 when it
  exceeds 0x7FFFFFFF. The offset advances by 1 for the 16-bit types and by 2 for
  the 32-bit types.
\<close>

theorem decode_numeric:
  assumes "data_type reg = t"
    and "t = ''uint16'' \<or> t = ''int16'' \<or> t = ''uint32'' \<or> t = ''int32''"
    and "0 \<le> offset" and "offset + int (spec_width t) \<le> int (length regs)"
  shows "decode_register regs offset reg =
           Inr (PInt (spec_numeric t regs (nat offset)), offset + int (spec_width t))"
  using assms by (rule decode_register_numeric)

theorem decode_numeric_witness:
  "decode_register [0x7FFF] 0 (Reg 1 ''a'' ''int16'') = Inr (PInt 32767, 1)
   \<and> decode_register [0x8000] 0 (Reg 1 ''a'' ''int16'') = Inr (PInt (- 32768), 1)
   \<and> decode_register [0x0001, 0x0002] 0 (Reg 1 ''a'' ''uint32'') = Inr (PInt 65538, 2)
   \<and> decode_register [0xFFFF, 0xFFFF] 0 (Reg 1 ''a'' ''int32'') = Inr (PInt (- 1), 2)
   \<and> decode_register [0xFFFF] 0 (Reg 1 ''a'' ''uint16'') = Inr (PInt 65535, 1)"
  using decode_numeric [of "Reg 1 ''a'' ''int16''" "''int16''" 0 "[0x7FFF]"]
    decode_numeric [of "Reg 1 ''a'' ''int16''" "''int16''" 0 "[0x8000]"]
    decode_numeric [of "Reg 1 ''a'' ''uint32''" "''uint32''" 0 "[0x0001, 0x0002]"]
    decode_numeric [of "Reg 1 ''a'' ''int32''" "''int32''" 0 "[0xFFFF, 0xFFFF]"]
    decode_numeric [of "Reg 1 ''a'' ''uint16''" "''uint16''" 0 "[0xFFFF]"]
  by (simp add: Reg_def spec_numeric_def spec_width_def)

section \<open>Decoding inside the buffer\<close>

text \<open>
  When every register of a block satisfies the width invariant and the block's words
  lie inside the buffer, decoding the block raises nothing.
\<close>

lemma decode_register_in_bounds:
  assumes "width_invariant reg" and "0 \<le> offset" and "offset + count reg \<le> int (length regs)"
  shows "\<exists>v. decode_register regs offset reg = Inr (v, offset + count reg)"
proof -
  consider (str) "data_type reg = ''string''"
    | (num) "data_type reg = ''uint16'' \<or> data_type reg = ''int16''
             \<or> data_type reg = ''uint32'' \<or> data_type reg = ''int32''"
    | (other) "data_type reg \<noteq> ''string''" "data_type reg \<noteq> ''uint16''"
        "data_type reg \<noteq> ''int16''" "data_type reg \<noteq> ''uint32''" "data_type reg \<noteq> ''int32''"
    by blast
  then show ?thesis
  proof cases
    case str
    then have "0 \<le> count reg" using assms(1) by (simp add: width_invariant_def)
    with str assms show ?thesis using decode_register_string by blast
  next
    case num
    then have "int (spec_width (data_type reg)) = count reg"
      using assms(1) by (auto simp: width_invariant_def spec_width_def)
    with num assms show ?thesis
      using decode_register_numeric [of reg "data_type reg" offset regs] by auto
  next
    case other
    then show ?thesis by (simp add: decode_register_def)
  qed
qed

lemma width_invariant_count: "width_invariant reg \<Longrightarrow> 1 \<le> count reg"
  by (auto simp: width_invariant_def split: if_splits)

lemma decode_loop_in_bounds:
  assumes "\<forall>r\<in>set registers. width_invariant r" and "0 \<le> offset"
    and "offset + sum_list (map count registers) \<le> int (length regs)"
  shows "\<exists>d'. decode_loop regs registers offset d = Inr d'"
  using assms
proof (induction registers arbitrary: offset d)
  case Nil
  then show ?case by simp
next
  case (Cons reg rest)
  have nonneg: "0 \<le> sum_list (map count rest)"
  proof (rule sum_list_nonneg)
    fix x assume "x \<in> set (map count rest)"
    then obtain r where "r \<in> set rest" "x = count r" by auto
    then show "0 \<le> x" using Cons.prems(1) width_invariant_count [of r] by simp
  qed
  have w: "width_invariant reg" "1 \<le> count reg"
    using Cons.prems(1) by (auto dest: width_invariant_count)
  have "offset + count reg \<le> int (length regs)"
    using Cons.prems(3) nonneg by simp
  then obtain v where v: "decode_register regs offset reg = Inr (v, offset + count reg)"
    using decode_register_in_bounds [OF w(1) Cons.prems(2)] by blast
  have "\<exists>d'. decode_loop regs rest (offset + count reg) (d(Addr (address reg) \<mapsto> v)) = Inr d'"
    using Cons.prems w by (intro Cons.IH) (auto simp: add.assoc)
  with v show ?case by simp
qed

section \<open>Counting the runs\<close>

lemma concat_group_scan: "concat (group_scan regs cur) = cur @ regs"
  by (induction regs arbitrary: cur) auto

lemma group_scan_nonempty: "b \<in> set (group_scan regs cur) \<Longrightarrow> b \<noteq> []"
  by (induction regs arbitrary: cur) (auto split: if_splits)

lemma contiguous_snoc:
  "cur \<noteq> [] \<Longrightarrow> contiguous cur \<Longrightarrow> address reg = address (last cur) + count (last cur)
     \<Longrightarrow> contiguous (cur @ [reg])"
  by (induction cur rule: contiguous.induct) auto

lemma group_scan_contiguous:
  "contiguous cur \<Longrightarrow> b \<in> set (group_scan regs cur) \<Longrightarrow> contiguous b"
proof (induction regs arbitrary: cur)
  case Nil
  then show ?case by (auto split: if_splits)
next
  case (Cons reg rest)
  show ?case
  proof (cases "cur = []")
    case True
    with Cons.prems Cons.IH [of "[reg]"] show ?thesis by simp
  next
    case False
    show ?thesis
    proof (cases "address reg = address (last cur) + count (last cur)")
      case True
      with False Cons.prems Cons.IH [of "cur @ [reg]"] show ?thesis
        by (simp add: contiguous_snoc)
    next
      case no: False
      with False Cons.prems Cons.IH [of "[reg]"] show ?thesis by auto
    qed
  qed
qed

lemma plan_concat: "concat (plan registers) = sort_key address registers"
  by (simp add: plan_def concat_group_scan)

lemma plan_block_subset: "b \<in> set (plan registers) \<Longrightarrow> set b \<subseteq> set registers"
proof -
  assume "b \<in> set (plan registers)"
  then have "set b \<subseteq> set (concat (plan registers))" by auto
  then show ?thesis by (simp add: plan_concat)
qed

lemma plan_block_nonempty: "b \<in> set (plan registers) \<Longrightarrow> b \<noteq> []"
  unfolding plan_def by (rule group_scan_nonempty)

lemma plan_block_contiguous: "b \<in> set (plan registers) \<Longrightarrow> contiguous b"
  unfolding plan_def by (rule group_scan_contiguous [of "[]"]) simp_all

text \<open>
  The grouping by itself: a non-empty list with k gaps in address order is cut into
  k + 1 blocks, and the blocks' word counts add up to the word counts of the input.
\<close>

lemma length_group_scan:
  "length (group_scan regs cur) =
     (if cur = [] then (if regs = [] then 0 else 1 + gaps regs) else 1 + gaps (last cur # regs))"
proof (induction regs arbitrary: cur)
  case Nil
  then show ?case by simp
next
  case (Cons reg rest)
  show ?case
  proof (cases "cur = []")
    case True
    then show ?thesis using Cons.IH [of "[reg]"] by simp
  next
    case False
    then show ?thesis using Cons.IH [of "cur @ [reg]"] Cons.IH [of "[reg]"] by simp
  qed
qed

lemma length_plan:
  "length (plan registers) =
     (if registers = [] then 0 else 1 + gaps (sort_key address registers))"
proof -
  have "sort_key address registers = [] \<longleftrightarrow> registers = []"
    by (metis length_sort list.size(3) length_0_conv)
  then show ?thesis by (simp add: plan_def length_group_scan)
qed

lemma sum_list_insort_key:
  "sum_list (map f (insort_key k x xs)) = f x + sum_list (map f xs)" for f :: "'a \<Rightarrow> int"
  by (induction xs) auto

lemma sum_list_sort_key:
  "sum_list (map f (sort_key k xs)) = sum_list (map f xs)" for f :: "'a \<Rightarrow> int"
  by (induction xs) (auto simp: sum_list_insort_key)

lemma plan_word_count:
  "sum_list (map (\<lambda>b. sum_list (map count b)) (plan registers)) = sum_list (map count registers)"
proof -
  have "sum_list (map (\<lambda>b. sum_list (map count b)) bs) = sum_list (map count (concat bs))"
    for bs :: "Register list list"
    by (induction bs) simp_all
  then show ?thesis by (simp add: plan_concat sum_list_sort_key)
qed


section \<open>The cycle as it runs\<close>

text \<open>
  The awaited call never hands a dictionary back to the loop, so the loop ends at the
  first group it closes: that group is read, the later ones are not.
\<close>

lemma await_never_returns:
  "\<exists>e tr. await_read_register_group client slave g st = (Inl e, tr)"
  by (cases "read_register_group client slave g st")
     (auto simp: await_read_register_group_def split: sum.splits)

lemma read_register_group_trace:
  "b \<noteq> [] \<Longrightarrow> snd (read_register_group client slave b st) = snd st @ [block_request slave b]"
  by (cases b) (auto simp: read_register_group_def block_request_def Let_def split: response.splits)

lemma await_trace:
  "b \<noteq> [] \<Longrightarrow>
   snd (await_read_register_group client slave b st) = snd st @ [block_request slave b]"
  using read_register_group_trace [of b client slave st]
  by (cases "read_register_group client slave b st")
     (auto simp: await_read_register_group_def split: sum.splits)

lemma first_run_nonempty: "regs \<noteq> [] \<Longrightarrow> first_run regs \<noteq> []"
  by (induction regs rule: first_run.induct) auto

lemma hd_first_run: "hd (first_run regs) = hd regs"
  by (induction regs rule: first_run.induct) auto

lemma contiguous_first_run: "contiguous (first_run regs)"
proof (induction regs rule: first_run.induct)
  case (1 a b rest)
  have "hd (first_run (b # rest)) = b" by (simp only: hd_first_run list.sel)
  with 1 show ?case by (cases "first_run (b # rest)") (auto split: if_splits)
qed simp_all

lemma first_run_prefix:
  "\<exists>rest. regs = first_run regs @ rest
     \<and> (rest = [] \<or> address (hd rest)
            \<noteq> address (last (first_run regs)) + count (last (first_run regs)))"
proof (induction regs rule: first_run.induct)
  case (1 a b rest)
  show ?case
  proof (cases "address b = address a + count a")
    case True
    with 1 obtain rest' where r: "b # rest = first_run (b # rest) @ rest'"
      "rest' = [] \<or> address (hd rest')
          \<noteq> address (last (first_run (b # rest))) + count (last (first_run (b # rest)))"
      by blast
    have ne: "first_run (b # rest) \<noteq> []" by (rule first_run_nonempty) simp
    from True r ne show ?thesis
      by (intro exI [of _ rest']) auto
  next
    case False
    then show ?thesis by (intro exI [of _ "b # rest"]) simp
  qed
qed simp_all

lemma first_run_subset: "set (first_run regs) \<subseteq> set regs"
  using first_run_prefix [of regs] by (metis set_append Un_upper1)

lemma group_loop_first_run:
  "cur \<noteq> [] \<Longrightarrow>
   group_loop client slave regs cur st =
     await_read_register_group client slave (butlast cur @ first_run (last cur # regs)) st"
proof (induction regs arbitrary: cur)
  case Nil
  then show ?case by simp
next
  case (Cons reg rest)
  obtain e tr where a: "await_read_register_group client slave cur st = (Inl e, tr)"
    using await_never_returns by blast
  show ?case
  proof (cases "address reg = address (last cur) + count (last cur)")
    case True
    have eq: "butlast cur @ last cur # first_run (reg # rest) = cur @ first_run (reg # rest)"
      using Cons.prems by (metis append_butlast_last_id append.assoc append_Cons append_Nil)
    have l: "first_run (last cur # reg # rest) = last cur # first_run (reg # rest)"
      using True by simp
    have "group_loop client slave (reg # rest) cur st =
        await_read_register_group client slave (cur @ first_run (reg # rest)) st"
      using True Cons.prems Cons.IH [of "cur @ [reg]"] by simp
    then show ?thesis by (simp only: l eq)
  next
    case False
    with Cons.prems a show ?thesis by simp
  qed
qed

lemma batch_read_first_run:
  assumes "registers \<noteq> []"
  shows "batch_read client slave registers st =
     await_read_register_group client slave (first_run (sort_key address registers)) st"
proof -
  have "sort_key address registers \<noteq> []"
    using assms by (metis length_sort length_0_conv)
  then obtain r rest where s: "sort_key address registers = r # rest"
    by (cases "sort_key address registers") auto
  then show ?thesis
    using group_loop_first_run [of "[r]" client slave rest st]
    by (simp add: batch_read_def)
qed

text \<open>Every cycle that finds its model ends in an exception.\<close>

lemma recognised_model_raises:
  assumes "client [] (ReadHolding 4999 1 slave) = ModbusOk (w # ws)"
    and "get_model (uint w) = Some registers"
  shows "\<exists>e tr. async_update_data client slave = (Inl e, tr)"
proof -
  have ne: "registers \<noteq> []"
    using assms(2)
    by (auto simp: get_model_def create_sh10rt_def create_sh25t_def split: if_splits)
  have "async_update_data client slave =
      batch_read client slave registers
        (Map.empty(Name ''device_type_code'' \<mapsto> PInt (uint w)), [ReadHolding 4999 1 slave])"
    using assms ne by (simp add: async_update_data_def getitem_def Let_def)
  then show ?thesis
    using batch_read_first_run [OF ne] await_never_returns by metis
qed

text \<open>
  Claim C1, as amended. The grouping looks at addresses and word counts only. The
  block the cycle reads is the longest gap-free start of the list sorted by address
  alone: the sorted list is that block followed by a rest that is empty or begins
  with a register that does not start where the block ends. The register space
  plays no part in the sort or in closing the block; the one wire read issued is the
  read call of the block's first register's space, at its address, for the sum of
  the block's word counts. So when the second register of the sorted list starts
  where the first ends, the two begin the block together whatever their spaces, and
  the block is sure to hold registers of one space only when all registers of the
  input list are of that space.
\<close>

theorem first_block_by_address_alone:
  assumes "registers \<noteq> []" and "b = first_run (sort_key address registers)"
  shows "(\<exists>rest. sort_key address registers = b @ rest
            \<and> (rest = [] \<or> address (hd rest) \<noteq> address (last b) + count (last b)))
         \<and> b \<noteq> [] \<and> contiguous b
         \<and> batch_read client slave registers st = await_read_register_group client slave b st
         \<and> snd (batch_read client slave registers st) = snd st @ [block_request slave b]
         \<and> (\<forall>a c more. sort_key address registers = a # c # more
                \<and> address c = address a + count a \<longrightarrow> take 2 b = [a, c])
         \<and> ((\<forall>r\<in>set registers. register_type r = t) \<longrightarrow> (\<forall>r\<in>set b. register_type r = t))"
proof -
  have ne: "sort_key address registers \<noteq> []"
    using assms(1) by (metis length_sort length_0_conv)
  have b: "b \<noteq> []" using ne assms(2) by (simp add: first_run_nonempty)
  have r: "batch_read client slave registers st = await_read_register_group client slave b st"
    using batch_read_first_run [OF assms(1)] assms(2) by simp
  have tr: "snd (batch_read client slave registers st) = snd st @ [block_request slave b]"
    using r await_trace [OF b] by simp
  have p: "\<exists>rest. sort_key address registers = b @ rest
            \<and> (rest = [] \<or> address (hd rest) \<noteq> address (last b) + count (last b))"
    using first_run_prefix [of "sort_key address registers"] unfolding assms(2) .
  have c: "contiguous b"
    unfolding assms(2) by (rule contiguous_first_run)
  have adj: "\<forall>a c more. sort_key address registers = a # c # more
                \<and> address c = address a + count a \<longrightarrow> take 2 b = [a, c]"
  proof (intro allI impI)
    fix a c more
    assume h: "sort_key address registers = a # c # more \<and> address c = address a + count a"
    then have "b = a # first_run (c # more)" using assms(2) by simp
    moreover have "first_run (c # more) \<noteq> []" by (rule first_run_nonempty) simp
    moreover have "hd (first_run (c # more)) = c" by (simp only: hd_first_run list.sel)
    ultimately show "take 2 b = [a, c]"
      by (cases "first_run (c # more)") (simp_all add: numeral_2_eq_2)
  qed
  have "set b \<subseteq> set registers"
    using first_run_subset [of "sort_key address registers"] assms(2) by simp
  then have sp: "(\<forall>r\<in>set registers. register_type r = t) \<longrightarrow> (\<forall>r\<in>set b. register_type r = t)"
    by blast
  from p b c r tr adj sp show ?thesis by blast
qed

theorem first_block_by_address_alone_witness:
  "first_run (sort_key address
      [(Reg 101 ''b'' ''uint16'')\<lparr>register_type := ''holding''\<rparr>, Reg 100 ''a'' ''uint16''])
     = [Reg 100 ''a'' ''uint16'', (Reg 101 ''b'' ''uint16'')\<lparr>register_type := ''holding''\<rparr>]
   \<and> batch_read (device 0 []) 1
        [(Reg 101 ''b'' ''uint16'')\<lparr>register_type := ''holding''\<rparr>, Reg 100 ''a'' ''uint16'']
        (Map.empty, [])
     = await_read_register_group (device 0 []) 1
        [Reg 100 ''a'' ''uint16'', (Reg 101 ''b'' ''uint16'')\<lparr>register_type := ''holding''\<rparr>]
        (Map.empty, [])
   \<and> snd (batch_read (device 0 []) 1
        [(Reg 101 ''b'' ''uint16'')\<lparr>register_type := ''holding''\<rparr>, Reg 100 ''a'' ''uint16'']
        (Map.empty, [])) = [ReadInput 100 2 1]"
proof -
  let ?h = "(Reg 101 ''b'' ''uint16'')\<lparr>register_type := ''holding''\<rparr>"
  let ?i = "Reg 100 ''a'' ''uint16''"
  have ne: "[?h, ?i] \<noteq> []" by simp
  have b: "[?i, ?h] = first_run (sort_key address [?h, ?i])" by (simp add: Reg_def)
  have rq: "block_request 1 [?i, ?h] = ReadInput 100 2 1"
    by (simp add: block_request_def Reg_def)
  note t = first_block_by_address_alone [OF ne b, of "device 0 []" 1 "(Map.empty, [])"]
  from t have "batch_read (device 0 []) 1 [?h, ?i] (Map.empty, [])
      = await_read_register_group (device 0 []) 1 [?i, ?h] (Map.empty, [])"
    by blast
  moreover from t have "snd (batch_read (device 0 []) 1 [?h, ?i] (Map.empty, []))
      = snd (Map.empty :: data, [] :: request list) @ [block_request 1 [?i, ?h]]"
    by blast
  ultimately show ?thesis
    using b [symmetric] rq by simp
qed

text \<open>
  Against claim C1 as stated: an input register at address 100 and a holding register
  at the adjacent address 101 are read as one block, by one input read of two words,
  and the value stored for the holding register is the second word of the input
  space.
\<close>

theorem mixed_space_block_counterexample:
  "register_type ((Reg 101 ''b'' ''uint16'')\<lparr>register_type := ''holding''\<rparr>)
       \<noteq> register_type (Reg 100 ''a'' ''uint16'')
   \<and> snd (batch_read
          (\<lambda>tr req. case req of ReadInput a n s \<Rightarrow> ModbusOk [7, 9]
                                | ReadHolding a n s \<Rightarrow> ModbusOk [1, 2]) 1
          [Reg 100 ''a'' ''uint16'', (Reg 101 ''b'' ''uint16'')\<lparr>register_type := ''holding''\<rparr>]
          (Map.empty, [])) = [ReadInput 100 2 1]
   \<and> (case fst (read_register_group
          (\<lambda>tr req. case req of ReadInput a n s \<Rightarrow> ModbusOk [7, 9]
                                | ReadHolding a n s \<Rightarrow> ModbusOk [1, 2]) 1
          [Reg 100 ''a'' ''uint16'', (Reg 101 ''b'' ''uint16'')\<lparr>register_type := ''holding''\<rparr>]
          (Map.empty, [])) of Inr d \<Rightarrow> d (Addr 101) | Inl e \<Rightarrow> None) = Some (PInt 9)"
  by (simp add: batch_read_def Reg_def await_read_register_group_def
      read_register_group_def decode_register_def getitem_def Let_def split: sum.splits)

lemma contiguous_later:
  "contiguous (a # rest) \<Longrightarrow> \<forall>r\<in>set (a # rest). 0 < count r \<Longrightarrow> x \<in> set rest
     \<Longrightarrow> address a + count a \<le> address x"
proof (induction rest arbitrary: a)
  case Nil
  then show ?case by simp
next
  case (Cons b rest)
  show ?case
  proof (cases "x = b")
    case True
    with Cons.prems show ?thesis by simp
  next
    case False
    with Cons.prems have "x \<in> set rest" by simp
    with Cons.prems Cons.IH [of b] have "address b + count b \<le> address x" by simp
    moreover have "address b = address a + count a" "0 < count b" using Cons.prems by simp_all
    ultimately show ?thesis by simp
  qed
qed

lemma contiguous_tail: "contiguous (a # rest) \<Longrightarrow> contiguous rest"
  by (cases rest) simp_all

lemma contiguous_not_overlapping:
  "contiguous b \<Longrightarrow> \<forall>r\<in>set b. 0 < count r \<Longrightarrow> \<not> overlapping b"
proof (induction b)
  case Nil
  then show ?case by simp
next
  case (Cons a rest)
  have "\<not> claims_overlap a x" if "x \<in> set rest" for x
  proof -
    have "address a + count a \<le> address x"
      using contiguous_later [OF Cons.prems(1) Cons.prems(2) that] .
    moreover have "0 < count a" using Cons.prems(2) by simp
    ultimately show ?thesis by (simp add: claims_overlap_def)
  qed
  moreover have "\<not> overlapping rest"
    using Cons.IH contiguous_tail [OF Cons.prems(1)] Cons.prems(2) by simp
  ultimately show ?case by simp
qed

text \<open>
  Claim C10, as amended. No check for duplicate or overlapping addresses is made: a
  list in which two registers of one space claim the same address range is handled
  as any other list, and the wire read of its first block, the longest gap-free start
  of the list sorted by address, is issued. When the word counts in that block are
  positive, no two registers of the block claim the same address range.
\<close>

theorem overlapping_list_is_read:
  assumes "overlapping registers" and "b = first_run (sort_key address registers)"
  shows "b \<noteq> []
         \<and> snd (batch_read client slave registers st) = snd st @ [block_request slave b]
         \<and> ((\<forall>r\<in>set b. 0 < count r) \<longrightarrow> \<not> overlapping b)"
proof -
  have ne: "registers \<noteq> []" using assms(1) by auto
  then have "sort_key address registers \<noteq> []" by (metis length_sort length_0_conv)
  then have b: "b \<noteq> []" using assms(2) by (simp add: first_run_nonempty)
  have "contiguous b" using assms(2) by (simp add: contiguous_first_run)
  then have "(\<forall>r\<in>set b. 0 < count r) \<longrightarrow> \<not> overlapping b"
    using contiguous_not_overlapping by blast
  moreover have "snd (batch_read client slave registers st) = snd st @ [block_request slave b]"
    using batch_read_first_run [OF ne] assms(2) await_trace [OF b] by simp
  ultimately show ?thesis using b by simp
qed
theorem overlapping_list_is_read_witness:
  "overlapping [Reg 100 ''a'' ''uint16'', Reg 100 ''b'' ''uint16'']
   \<and> first_run (sort_key address [Reg 100 ''a'' ''uint16'', Reg 100 ''b'' ''uint16''])
       = [Reg 100 ''a'' ''uint16'']
   \<and> snd (batch_read (device 0 []) 1 [Reg 100 ''a'' ''uint16'', Reg 100 ''b'' ''uint16'']
        (Map.empty, [])) = [ReadInput 100 1 1]
   \<and> \<not> overlapping [Reg 100 ''a'' ''uint16'']"
proof -
  let ?a = "Reg 100 ''a'' ''uint16''"
  let ?b = "Reg 100 ''b'' ''uint16''"
  have ov: "overlapping [?a, ?b]" by (simp add: claims_overlap_def Reg_def)
  have b: "[?a] = first_run (sort_key address [?a, ?b])" by (simp add: Reg_def)
  have rq: "block_request 1 [?a] = ReadInput 100 1 1"
    by (simp add: block_request_def Reg_def)
  have pos: "\<forall>r\<in>set [?a]. 0 < count r" by (simp add: Reg_def)
  note t = overlapping_list_is_read [OF ov b, of "device 0 []" 1 "(Map.empty, [])"]
  from t have "snd (batch_read (device 0 []) 1 [?a, ?b] (Map.empty, []))
      = snd (Map.empty :: data, [] :: request list) @ [block_request 1 [?a]]"
    by blast
  moreover from t pos have "\<not> overlapping [?a]"
    by blast
  ultimately show ?thesis
    using ov b [symmetric] rq by simp
qed

text \<open>
  Against claim C10 as stated: a string register of four words at address 100 and a
  register at address 102, inside those four words, are not refused. The wire read
  of the first block is issued, and the cycle ends as it does for the string
  register alone.
\<close>

lemma overlap_poll_case:
  "(case batch_read (device 0 []) 1
           [(Reg 100 ''s'' ''string'')\<lparr>count := 4\<rparr>, Reg 102 ''u'' ''uint16''] (Map.empty, []) of
      (Inl e, tr) \<Rightarrow> e = TypeError \<and> tr = [ReadInput 100 4 1]
    | (Inr d, tr) \<Rightarrow> False)"
  "(case batch_read (device 0 []) 1 [(Reg 100 ''s'' ''string'')\<lparr>count := 4\<rparr>] (Map.empty, []) of
      (Inl e, tr) \<Rightarrow> e = TypeError \<and> tr = [ReadInput 100 4 1]
    | (Inr d, tr) \<Rightarrow> False)"
  by code_simp+

theorem overlapping_address_counterexample:
  "overlapping [(Reg 100 ''s'' ''string'')\<lparr>count := 4\<rparr>, Reg 102 ''u'' ''uint16'']
   \<and> batch_read (device 0 []) 1
        [(Reg 100 ''s'' ''string'')\<lparr>count := 4\<rparr>, Reg 102 ''u'' ''uint16''] (Map.empty, [])
       = (Inl TypeError, [ReadInput 100 4 1])
   \<and> batch_read (device 0 []) 1 [(Reg 100 ''s'' ''string'')\<lparr>count := 4\<rparr>] (Map.empty, [])
       = (Inl TypeError, [ReadInput 100 4 1])"
proof -
  have "overlapping [(Reg 100 ''s'' ''string'')\<lparr>count := 4\<rparr>, Reg 102 ''u'' ''uint16'']"
    by (simp add: claims_overlap_def Reg_def)
  with overlap_poll_case show ?thesis
    by (auto split: prod.splits sum.splits)
qed

section \<open>The identity read\<close>

text \<open>
  Claim C9. When the read of the identity register is an error, or the code it
  returns is not one the registry knows, the cycle returns the empty dictionary and
  the identity read is the only read it has issued.
\<close>

theorem identity_failure_empty_result:
  assumes "client [] (ReadHolding 4999 1 slave) = ModbusError
           \<or> (client [] (ReadHolding 4999 1 slave) = ModbusOk (w # ws)
               \<and> get_model (uint w) = None)"
  shows "async_update_data client slave = (Inr Map.empty, [ReadHolding 4999 1 slave])"
  using assms by (auto simp: async_update_data_def getitem_def Let_def)

theorem identity_failure_empty_result_witness:
  "get_model (uint (0xFFFF :: 16 word)) = None
   \<and> async_update_data (device 0xFFFF []) 1 = (Inr Map.empty, [ReadHolding 4999 1 1])
   \<and> async_update_data (\<lambda>tr req. ModbusError) 1 = (Inr Map.empty, [ReadHolding 4999 1 1])"
  using identity_failure_empty_result [of "device 0xFFFF []" 1 "0xFFFF" "[]"]
    identity_failure_empty_result [of "\<lambda>tr req. ModbusError" 1 0 "[]"]
  by (simp add: device_def get_model_def)

section \<open>Scaling\<close>

lemma decode_register_step:
  "decode_register ws off reg = Inr (v, off') \<Longrightarrow> off' = off + step reg"
  by (auto simp: decode_register_def step_def Let_def split: if_splits sum.splits)

lemma decode_loop_other_keys:
  "decode_loop ws regs off d = Inr d' \<Longrightarrow> \<forall>r\<in>set regs. Addr (address r) \<noteq> k
     \<Longrightarrow> d' k = d k"
proof (induction regs arbitrary: off d)
  case Nil
  then show ?case by simp
next
  case (Cons reg rest)
  from Cons.prems(1) obtain v off' where
    dl: "decode_loop ws rest off' (d(Addr (address reg) \<mapsto> v)) = Inr d'"
    by (auto split: sum.splits)
  have "d' k = (d(Addr (address reg) \<mapsto> v)) k"
  proof (rule Cons.IH)
    show "decode_loop ws rest off' (d(Addr (address reg) \<mapsto> v)) = Inr d'" by (rule dl)
    show "\<forall>r\<in>set rest. Addr (address r) \<noteq> k" using Cons.prems(2) by simp
  qed
  then show ?case using Cons.prems(2) by auto
qed

lemma decode_loop_stores:
  "decode_loop ws regs off d = Inr d' \<Longrightarrow> i < length regs
     \<Longrightarrow> address (regs ! i) \<notin> address ` set (drop (Suc i) regs)
     \<Longrightarrow> \<exists>v. decode_register ws (off + sum_list (map step (take i regs))) (regs ! i)
               = Inr (v, off + sum_list (map step (take i regs)) + step (regs ! i))
           \<and> d' (Addr (address (regs ! i))) = Some v"
proof (induction regs arbitrary: off d i)
  case Nil
  then show ?case by simp
next
  case (Cons reg rest)
  from Cons.prems(1) obtain v off' where
    dr: "decode_register ws off reg = Inr (v, off')" and
    dl: "decode_loop ws rest off' (d(Addr (address reg) \<mapsto> v)) = Inr d'"
    by (auto split: sum.splits)
  have off': "off' = off + step reg" using dr by (rule decode_register_step)
  show ?case
  proof (cases i)
    case 0
    have "\<forall>r\<in>set rest. Addr (address r) \<noteq> Addr (address reg)"
      using Cons.prems(3) 0 by (auto simp: image_iff)
    from decode_loop_other_keys [OF dl this] have "d' (Addr (address reg)) = Some v"
      by simp
    with dr off' 0 show ?thesis by simp
  next
    case (Suc k)
    have "k < length rest" "address (rest ! k) \<notin> address ` set (drop (Suc k) rest)"
      using Cons.prems(2,3) Suc by simp_all
    from Cons.IH [OF dl this] off' Suc show ?thesis
      by (simp add: add.assoc)
  qed
qed

lemma decode_register_numeric_value:
  assumes "0 \<le> off" and "decode_register ws off reg = Inr (v, off')"
    and "numeric (data_type reg)"
  shows "v = PInt (spec_numeric (data_type reg) ws (nat off))"
proof -
  have n1: "nat (off + 1) = nat off + 1" using assms(1) by simp
  from assms show ?thesis
    by (auto simp: numeric_def decode_register_def spec_numeric_def getitem_def Let_def n1
        split: if_splits sum.splits)
qed

lemma decode_register_string_value:
  "decode_register ws off reg = Inr (v, off') \<Longrightarrow> data_type reg = ''string''
     \<Longrightarrow> \<exists>s. v = PStr s"
  by (auto simp: decode_register_def split: sum.splits)

lemma step_nonneg: "0 \<le> count reg \<Longrightarrow> 0 \<le> step reg"
  by (simp add: step_def)

lemma read_register_group_ok:
  "registers \<noteq> [] \<Longrightarrow> client tr (block_request slave registers) = ModbusOk ws \<Longrightarrow>
   read_register_group client slave registers (d, tr)
     = (decode_loop ws registers 0 d, tr @ [block_request slave registers])"
  by (cases registers) (auto simp: read_register_group_def block_request_def Let_def)

text \<open>
  Claim C5, as amended. When a block read returns normally from a response of words
  and no word count in the block is negative, each register of the block whose
  address no later register of the block repeats has, under its address, the value
  decoded at its running offset, unscaled: for the types
  uint16, int16, uint32 and int32 the integer of the numeric rules, for a string a
  string. The scale is applied when the sensor's state is read: for a numeric
  register the state is the stored integer times the register's scale when the scale
  differs from 1.0 and the stored integer itself when it does not, and for a string
  register of scale 1.0 the state is the stored string.
\<close>

theorem stored_unscaled_scaled_by_state:
  assumes "client tr (block_request slave registers) = ModbusOk ws"
    and "read_register_group client slave registers (d, tr) = (Inr d', tr')"
    and "i < length registers" and "r = registers ! i"
    and "address r \<notin> address ` set (drop (Suc i) registers)"
    and "\<forall>x\<in>set registers. 0 \<le> count x"
    and "off = sum_list (map step (take i registers))"
  shows "\<exists>v. decode_register ws off r = Inr (v, off + step r)
           \<and> d' (Addr (address r)) = Some v
           \<and> (numeric (data_type r) \<longrightarrow>
                v = PInt (spec_numeric (data_type r) ws (nat off))
                \<and> state d' r = (if ne_one (scale r) then py_mul v (scale r) else Inr v))
           \<and> (data_type r = ''string'' \<longrightarrow>
                (\<exists>s. v = PStr s) \<and> (\<not> ne_one (scale r) \<longrightarrow> state d' r = Inr v))"
proof -
  have ne: "registers \<noteq> []" using assms(3) by auto
  have dl: "decode_loop ws registers 0 d = Inr d'"
    using read_register_group_ok [of registers client tr slave ws d] ne assms(1,2) by simp
  from decode_loop_stores [OF dl assms(3)] assms(4,5,7) obtain v where
    v: "decode_register ws off r = Inr (v, off + step r)" "d' (Addr (address r)) = Some v"
    by auto
  have "0 \<le> off"
    unfolding assms(7)
  proof (rule sum_list_nonneg)
    fix x assume "x \<in> set (map step (take i registers))"
    then obtain y where "y \<in> set (take i registers)" "x = step y" by auto
    then show "0 \<le> x" using assms(6) step_nonneg [of y] by (auto dest: in_set_takeD)
  qed
  then have num: "numeric (data_type r) \<longrightarrow> v = PInt (spec_numeric (data_type r) ws (nat off))"
    using decode_register_numeric_value v(1) by blast
  have str: "data_type r = ''string'' \<longrightarrow> (\<exists>s. v = PStr s)"
    using decode_register_string_value v(1) by blast
  have st: "v \<noteq> PNone \<longrightarrow> state d' r = (if ne_one (scale r) then py_mul v (scale r) else Inr v)"
    using v(2) by (simp add: state_def)
  from v num str st show ?thesis
    by (intro exI [of _ v]) auto
qed

lemma tenth_products:
  "py_mul (PInt 3) (PyFloat tenth) = Inr (PFloat (Finite (1351079888211149 / 4503599627370496)))"
  "py_mul (PInt 250) (PyFloat tenth) = Inr (PFloat (Finite 25))"
  by code_simp+

theorem stored_unscaled_scaled_by_state_witness:
  "\<exists>d'. read_register_group (\<lambda>tr req. ModbusOk [3, 250]) 1
           [volt 5010 ''MPPT1 Voltage'', amp 5011 ''MPPT1 Current''] (Map.empty, [])
          = (Inr d', [ReadInput 5010 2 1])
        \<and> d' (Addr 5010) = Some (PInt 3)
        \<and> state d' (volt 5010 ''MPPT1 Voltage'')
            = Inr (PFloat (Finite (1351079888211149 / 4503599627370496)))"
proof -
  let ?c = "\<lambda>(tr :: request list) (req :: request). ModbusOk [3, 250]"
  let ?regs = "[volt 5010 ''MPPT1 Voltage'', amp 5011 ''MPPT1 Current'']"
  let ?r = "volt 5010 ''MPPT1 Voltage''"
  have rq: "block_request 1 ?regs = ReadInput 5010 2 1"
    by (simp add: block_request_def volt_def amp_def Reg_def)
  obtain d' where rd: "read_register_group ?c 1 ?regs (Map.empty, []) = (Inr d', [ReadInput 5010 2 1])"
    by (simp add: read_register_group_def volt_def amp_def Reg_def decode_register_def
        getitem_def Let_def)
  have h: "?c [] (block_request 1 ?regs) = ModbusOk [3, 250]" "0 < length ?regs"
    "?r = ?regs ! 0" "address ?r \<notin> address ` set (drop (Suc 0) ?regs)"
    "\<forall>x\<in>set ?regs. 0 \<le> count x" "(0::int) = sum_list (map step (take 0 ?regs))"
    by (simp_all add: volt_def amp_def Reg_def)
  from stored_unscaled_scaled_by_state [OF h(1) rd h(2) h(3) h(4) h(5) h(6)]
  obtain v where v: "d' (Addr (address ?r)) = Some v"
    "numeric (data_type ?r) \<longrightarrow>
       v = PInt (spec_numeric (data_type ?r) [3, 250] (nat 0))
       \<and> state d' ?r = (if ne_one (scale ?r) then py_mul v (scale ?r) else Inr v)"
    by blast
  have n: "numeric (data_type ?r)" "data_type ?r = ''uint16''" "address ?r = 5010"
    "scale ?r = PyFloat tenth" "ne_one (PyFloat tenth)"
    by (simp_all add: numeric_def volt_def Reg_def tenth_def)
  have "spec_numeric ''uint16'' [3, 250] (nat 0) = 3" by (simp add: spec_numeric_def)
  with v n tenth_products(1) have "d' (Addr 5010) = Some (PInt 3)"
    "state d' ?r = Inr (PFloat (Finite (1351079888211149 / 4503599627370496)))"
    by simp_all
  with rd show ?thesis by blast
qed

text \<open>
  Against claim C5 as stated: the inverter temperature register has scale 0.1; read
  from the word 250, the output mapping holds 250 at its address, not the scaled
  25.0. And the state of a string register whose scale is the integer 2 is the stored
  string twice over, while with the float scale 2.0 reading the state raises.
\<close>

theorem unscaled_mapping_counterexample:
  "(case fst (read_register_group (\<lambda>tr req. ModbusOk [250]) 1 [create_base_registers ! 2]
               (Map.empty, [])) of
      Inr d \<Rightarrow> d (Addr 5007) | Inl e \<Rightarrow> None) = Some (PInt 250)
   \<and> spec_scaled (PInt 250) (scale (create_base_registers ! 2)) = Inr (PFloat (Finite 25))
   \<and> state [Addr 100 \<mapsto> PStr ''AB''] ((Reg 100 ''Label'' ''string'')\<lparr>scale := PyInt 2\<rparr>)
       = Inr (PStr ''ABAB'')
   \<and> state [Addr 100 \<mapsto> PStr ''AB'']
        ((Reg 100 ''Label'' ''string'')\<lparr>scale := PyFloat (Finite 2)\<rparr>) = Inl TypeError"
proof -
  have "replicate (nat 2) ''AB'' = [''AB'', ''AB'']" by (simp add: numeral_2_eq_2)
  then show ?thesis
    using tenth_products(2)
    by (simp add: read_register_group_def create_base_registers_def Reg_def decode_register_def
        getitem_def spec_scaled_def state_def Let_def)
qed

section \<open>The built-in models and the poll cycle, evaluated\<close>

text \<open>
  Claim C2 fails on the SH25T model: the registry's entry for the total DC power is
  a uint32 register whose \<open>count\<close> is the default 1, not 2.
\<close>

theorem sh25t_uint32_one_word:
  "get_model 0x0E26 = Some create_sh25t
   \<and> name (create_sh25t ! 9) = ''Total DC Power''
   \<and> data_type (create_sh25t ! 9) = ''uint32''
   \<and> count (create_sh25t ! 9) = 1
   \<and> \<not> width_invariant (create_sh25t ! 9)"
  by (simp add: get_model_def create_sh25t_def create_base_registers_def Reg_def
      width_invariant_def)

lemma sh25t_block_case:
  "(case decode_loop (replicate 7 0) (drop 3 create_sh25t) 0 Map.empty of
      Inl e \<Rightarrow> e = IndexError | Inr d \<Rightarrow> False)"
  by code_simp

lemma plan_sh25t:
  "plan create_sh25t = [take 2 create_sh25t, [create_sh25t ! 2], drop 3 create_sh25t]"
  by (simp add: plan_def create_sh25t_def create_base_registers_def Reg_def volt_def amp_def)

lemma plan_sh10rt:
  "plan create_sh10rt = [take 2 create_sh10rt, [create_sh10rt ! 2], drop 3 create_sh10rt]"
  by (simp add: plan_def create_sh10rt_def create_base_registers_def Reg_def volt_def amp_def)

text \<open>
  Claim C3 fails on the last block of the SH25T model, registers 5010 to 5016: its
  word counts sum to 7, and decoding it from a buffer of 7 words reads index 7 for
  the low word of the total DC power and raises \<open>IndexError\<close>.
\<close>

theorem sh25t_block_index_error:
  "drop 3 create_sh25t \<in> set (plan create_sh25t)
   \<and> sum_list (map count (drop 3 create_sh25t)) = 7
   \<and> decode_loop (replicate 7 0) (drop 3 create_sh25t) 0 Map.empty = Inl IndexError"
proof -
  have "sum_list (map count (drop 3 create_sh25t)) = 7"
    by (simp add: create_sh25t_def create_base_registers_def Reg_def volt_def amp_def)
  moreover have "decode_loop (replicate 7 0) (drop 3 create_sh25t) 0 Map.empty = Inl IndexError"
    using sh25t_block_case by (auto split: sum.splits)
  ultimately show ?thesis by (simp add: plan_sh25t)
qed

lemma sh10rt_poll_case:
  "(case async_update_data (device 0x0E03 []) 1 of
      (Inl e, tr) \<Rightarrow> e = TypeError \<and> tr = [ReadHolding 4999 1 1, ReadInput 4989 11 1]
    | (Inr d, tr) \<Rightarrow> False)"
  by code_simp

text \<open>
  Claim C4 fails on the SH10RT model, whose registers form three runs: with a device
  that answers every read, the cycle reads the first block, raises \<open>TypeError\<close> at
  the \<open>await\<close> of that read and never forms the other two blocks.
\<close>

theorem sh10rt_poll_stops_after_first_block:
  "length (plan create_sh10rt) = 3
   \<and> async_update_data (device 0x0E03 []) 1
       = (Inl TypeError, [ReadHolding 4999 1 1, ReadInput 4989 11 1])"
proof -
  have "async_update_data (device 0x0E03 []) 1
       = (Inl TypeError, [ReadHolding 4999 1 1, ReadInput 4989 11 1])"
    using sh10rt_poll_case by (auto split: prod.splits sum.splits)
  then show ?thesis by (simp add: plan_sh10rt)
qed

lemma sh10rt_failed_block_case:
  "(case async_update_data (device 0x0E03 [5007]) 1 of
      (Inl e, tr) \<Rightarrow> e = TypeError \<and> tr = [ReadHolding 4999 1 1, ReadInput 4989 11 1]
    | (Inr d, tr) \<Rightarrow> False)"
  by code_simp

text \<open>
  Claim C8 fails on the SH10RT model with a device that refuses the read of the
  second block (address 5007) and answers the others: the cycle raises
  \<open>TypeError\<close> after the first block, returns no snapshot and reads neither the
  refused block nor the third.
\<close>

theorem failed_block_poll_raises:
  "device 0x0E03 [5007] [ReadHolding 4999 1 1, ReadInput 4989 11 1] (ReadInput 5007 1 1)
     = ModbusError
   \<and> async_update_data (device 0x0E03 [5007]) 1
       = (Inl TypeError, [ReadHolding 4999 1 1, ReadInput 4989 11 1])"
  using sh10rt_failed_block_case by (auto simp: device_def split: prod.splits sum.splits)

end
